theory Spec2Isabelle
  imports Main "HOL-Library.AList" "HOL-Library.Word"
begin

section \<open>Strings\<close>

text \<open>
  A JavaScript string is modelled as a \<^typ>\<open>string\<close>, one \<^typ>\<open>char\<close> per code unit,
  so texts are restricted to code units below 256. Within that range
  \<open>is_space\<close> is the set removed by \<^verbatim>\<open>String.prototype.trim\<close> and matched by the
  regular expression class \<^verbatim>\<open>\s\<close>, and \<open>toLowerCase\<close> is the case map of
  \<^verbatim>\<open>String.prototype.toLowerCase\<close>. \<open>toUpperCase\<close> maps the letters whose upper case
  is again a single code unit below 256 and leaves the others as they are.
\<close>

definition is_space :: "char \<Rightarrow> bool" where
  "is_space c = (c \<in> set [CHR 0x09, CHR 0x0A, CHR 0x0B, CHR 0x0C, CHR 0x0D, CHR 0x20, CHR 0xA0])"

definition trim :: "string \<Rightarrow> string" where
  "trim s = rev (dropWhile is_space (rev (dropWhile is_space s)))"

definition lower_char :: "char \<Rightarrow> char" where
  "lower_char c =
     (let n = (of_char c :: nat)
      in if (65 \<le> n \<and> n \<le> 90) \<or> (192 \<le> n \<and> n \<le> 214) \<or> (216 \<le> n \<and> n \<le> 222)
         then char_of (n + 32) else c)"

definition upper_char :: "char \<Rightarrow> char" where
  "upper_char c =
     (let n = (of_char c :: nat)
      in if (97 \<le> n \<and> n \<le> 122) \<or> (224 \<le> n \<and> n \<le> 246) \<or> (248 \<le> n \<and> n \<le> 254)
         then char_of (n - 32) else c)"

definition toLowerCase :: "string \<Rightarrow> string" where
  "toLowerCase s = map lower_char s"

definition toUpperCase :: "string \<Rightarrow> string" where
  "toUpperCase s = map upper_char s"

section \<open>The store\<close>

text \<open>
  The records of the data-store module. Numbers that the code uses as integers
  (ids, counters, timestamps) are \<^typ>\<open>int\<close>; they are only compared and copied, except
  for the message counter, whose increment rounds as the number type of the source does
  (see \<open>js_increment\<close>). A field that may be \<^verbatim>\<open>null\<close> is an option; the flags
  \<^verbatim>\<open>is_verified\<close> and \<^verbatim>\<open>is_deleted\<close> hold 0 or 1 and are read by truthiness, that
  is, compared with 0.
\<close>

record sticker =
  st_id :: string
  st_description :: string
  st_preview_url :: string
  st_image_url :: string
  st_created_at :: int

record user =
  u_id :: int
  u_email :: string
  u_password_hash :: string
  u_display_name :: string
  u_avatar_source :: string
  u_avatar_url :: "string option"
  u_is_verified :: nat
  u_verification_token :: "string option"
  u_verification_expires :: "int option"
  u_reset_code_hash :: "string option"
  u_reset_code_expires :: "int option"
  u_created_at :: int
  u_updated_at :: int
  u_custom_stickers :: "sticker list"

record message =
  m_id :: int
  m_user_id :: "int option"
  m_content :: string
  m_created_at :: int
  m_reply_to_id :: "int option"
  m_is_deleted :: nat

record file_record =
  f_id :: int
  f_user_id :: int
  f_code :: string
  f_object_key :: string
  f_file_name :: string
  f_size :: int
  f_content_type :: string
  f_created_at :: int

record store =
  users :: "user list"
  messages :: "message list"
  files :: "file_record list"
  nextUserId :: int
  nextMessageId :: int
  nextFileId :: int

definition defaultStore :: store where
  "defaultStore = \<lparr>users = [], messages = [], files = [],
     nextUserId = 1, nextMessageId = 1, nextFileId = 1\<rparr>"

datatype reason = not_found | permission_denied | limit

text \<open>
  \<^verbatim>\<open>Array.prototype.find\<close> returns the first element that satisfies the predicate, and
  the code then assigns to fields of that element. \<open>update_first\<close> is that assignment:
  it rewrites the first element satisfying the predicate and no other.
\<close>

fun update_first :: "('a \<Rightarrow> bool) \<Rightarrow> ('a \<Rightarrow> 'a) \<Rightarrow> 'a list \<Rightarrow> 'a list" where
  "update_first P f [] = []"
| "update_first P f (x # xs) = (if P x then f x # xs else x # update_first P f xs)"

definition getUserById :: "store \<Rightarrow> int \<Rightarrow> user option" where
  "getUserById s i = find (\<lambda>u. u_id u = i) (users s)"

subsection \<open>Messages\<close>

text \<open>\<^verbatim>\<open>replyToId || null\<close>: a missing reply id and the reply id 0 both become null.\<close>

definition or_null :: "int option \<Rightarrow> int option" where
  "or_null r = (case r of None \<Rightarrow> None | Some v \<Rightarrow> (if v = 0 then None else Some v))"

text \<open>
  \<^verbatim>\<open>store.nextMessageId++\<close> adds 1 to a number that holds an integer, and the sum is
  rounded to the nearest number with 53 significant bits, a tie going to the even
  significand. \<open>bit_length\<close> is the number of binary digits of a positive integer,
  \<open>round_magnitude\<close> the rounding of a magnitude, \<open>round_double\<close> the rounding of an
  integer and \<open>js_increment\<close> the value the counter holds after \<^verbatim>\<open>++\<close>. Up to \<open>2^53\<close>
  in magnitude the sum is exact; from \<open>2^53\<close> on the counter can stay where it is.
\<close>

function bit_length :: "int \<Rightarrow> nat" where
  "bit_length n = (if n \<le> 0 then 0 else Suc (bit_length (n div 2)))"
  by pat_completeness auto
termination
  by (relation "measure nat") auto

definition round_magnitude :: "int \<Rightarrow> int" where
  "round_magnitude n =
     (let e = bit_length n - 53;
          q = n div 2 ^ e;
          r = n mod 2 ^ e
      in if 2 * r > 2 ^ e \<or> (2 * r = 2 ^ e \<and> odd q) then (q + 1) * 2 ^ e else q * 2 ^ e)"

definition round_double :: "int \<Rightarrow> int" where
  "round_double x = sgn x * round_magnitude \<bar>x\<bar>"

definition js_increment :: "int \<Rightarrow> int" where
  "js_increment n = round_double (n + 1)"

definition saveMessage ::
  "store \<Rightarrow> int option \<Rightarrow> string \<Rightarrow> int \<Rightarrow> int option \<Rightarrow> message \<times> store" where
  "saveMessage s userId content createdAt replyToId =
     (let msg = \<lparr>m_id = nextMessageId s, m_user_id = userId, m_content = content,
                  m_created_at = createdAt, m_reply_to_id = or_null replyToId,
                  m_is_deleted = 0\<rparr>
      in (msg, s\<lparr>nextMessageId := js_increment (nextMessageId s),
                  messages := messages s @ [msg]\<rparr>))"


datatype delete_ok = deleted | already

definition deleteMessage :: "store \<Rightarrow> int \<Rightarrow> int option \<Rightarrow> (reason + delete_ok) \<times> store" where
  "deleteMessage s messageId requestingUserId =
     (case find (\<lambda>m. m_id m = messageId) (messages s) of
        None \<Rightarrow> (Inl not_found, s)
      | Some msg \<Rightarrow>
          if m_user_id msg \<noteq> requestingUserId then (Inl permission_denied, s)
          else if m_is_deleted msg \<noteq> 0 then (Inr already, s)
          else (Inr deleted,
                s\<lparr>messages := update_first (\<lambda>m. m_id m = messageId)
                                 (\<lambda>m. m\<lparr>m_is_deleted := 1\<rparr>) (messages s)\<rparr>))"

text \<open>The order the message log is kept in: ids ascend along the list and stay below the
  counter. The empty store has it, deleteMessage keeps it, and saveMessage keeps it while
  the counter is below \<open>2^53\<close>.\<close>

definition log_ordered :: "store \<Rightarrow> bool" where
  "log_ordered s = (sorted_wrt (<) (map m_id (messages s))
     \<and> list_all (\<lambda>m. m_id m < nextMessageId s) (messages s))"

subsection \<open>Pages of history\<close>

text \<open>
  A row of a page is the message joined with its author's current profile. The display
  name of a row without author is a fixed label of the source, kept here as a constructor
  of its own.
\<close>

datatype name_label = user_name string | system_label

record page_row =
  r_id :: int
  r_user_id :: "int option"
  r_content :: string
  r_created_at :: int
  r_display_name :: name_label
  r_email :: string
  r_avatar_source :: string
  r_avatar_url :: "string option"
  r_is_deleted :: nat
  r_reply_to_id :: "int option"

text \<open>\<^verbatim>\<open>store.users.find(u => u.id === msg.user_id)\<close>: no user has the id null.\<close>

definition author_of :: "store \<Rightarrow> message \<Rightarrow> user option" where
  "author_of s msg = (case m_user_id msg of None \<Rightarrow> None | Some i \<Rightarrow> getUserById s i)"

text \<open>The callback of \<^verbatim>\<open>map\<close> in getMessagesPage: null (here \<open>None\<close>) for a message
  whose author id is not null and names no user.\<close>

definition page_row_of :: "store \<Rightarrow> message \<Rightarrow> page_row option" where
  "page_row_of s msg =
     (let usr = author_of s msg
      in if usr = None \<and> m_user_id msg \<noteq> None then None
         else Some \<lparr>r_id = m_id msg, r_user_id = m_user_id msg, r_content = m_content msg,
                    r_created_at = m_created_at msg,
                    r_display_name = (case usr of Some u \<Rightarrow> user_name (u_display_name u)
                                                 | None \<Rightarrow> system_label),
                    r_email = (case usr of Some u \<Rightarrow> u_email u | None \<Rightarrow> []),
                    r_avatar_source = (case usr of Some u \<Rightarrow> u_avatar_source u
                                                  | None \<Rightarrow> ''gravatar''),
                    r_avatar_url = (case usr of Some u \<Rightarrow> u_avatar_url u | None \<Rightarrow> None),
                    r_is_deleted = m_is_deleted msg, r_reply_to_id = m_reply_to_id msg\<rparr>)"

text \<open>\<^verbatim>\<open>xs.slice(-n)\<close> for \<open>n > 0\<close>: the last \<open>n\<close> elements, all of them when there are fewer.\<close>

definition slice_last :: "nat \<Rightarrow> 'a list \<Rightarrow> 'a list" where
  "slice_last n xs = drop (length xs - n) xs"

text \<open>
  The limit is a number; \<^verbatim>\<open>Math.max(0, Number(limit) || 0)\<close> makes a negative one 0. The
  cursor is \<open>Some b\<close> when \<^verbatim>\<open>Number.isInteger(beforeId)\<close> holds and \<open>None\<close> otherwise.
\<close>

definition getMessagesPage :: "store \<Rightarrow> int \<Rightarrow> int option \<Rightarrow> page_row list" where
  "getMessagesPage s lim beforeId =
     (let take_n = nat (max 0 lim)
      in if take_n = 0 then []
         else let filtered = (case beforeId of
                                None \<Rightarrow> messages s
                              | Some b \<Rightarrow> filter (\<lambda>msg. m_id msg < b) (messages s))
              in List.map_filter (page_row_of s) (slice_last take_n filtered))"

text \<open>The messages a cursor admits: all of them without cursor, those of smaller id with one.\<close>

definition history_before :: "store \<Rightarrow> int option \<Rightarrow> message list" where
  "history_before s b =
     (case b of None \<Rightarrow> messages s | Some c \<Rightarrow> filter (\<lambda>msg. m_id msg < c) (messages s))"

text \<open>
  Walking history backwards as the callers do: ask for a page; a page shorter than the
  limit ends the walk; otherwise ask again with the smallest id of the page as cursor.
  The walk returns the pages it fetched, or \<open>None\<close> when the fuel ran out or when a full
  page is empty and so offers no next cursor.
\<close>

fun page_walk :: "nat \<Rightarrow> store \<Rightarrow> int \<Rightarrow> int option \<Rightarrow> page_row list list option" where
  "page_walk 0 s lim b = None"
| "page_walk (Suc fuel) s lim b =
     (let rows = getMessagesPage s lim b
      in if int (length rows) < lim then Some [rows]
         else if rows = [] then None
         else map_option (Cons rows) (page_walk fuel s lim (Some (Min (set (map r_id rows))))))"

subsection \<open>The random source\<close>

text \<open>
  The answers of \<^verbatim>\<open>crypto\<close> are inputs of the model. \<open>randomBytes src n\<close> is the buffer
  of \<open>n\<close> bytes that one call returns, read from the byte source \<open>src\<close>; \<open>toString_hex\<close>
  is its \<^verbatim>\<open>toString('hex')\<close>, two lower-case digits per byte. \<open>randomInt src k lo hi\<close> is
  the answer of the \<open>k\<close>-th call of \<^verbatim>\<open>crypto.randomInt(lo, hi)\<close>, which lies in
  \<open>lo \<le> \<dots> < hi\<close> whatever the source \<open>src\<close> holds.
\<close>

definition randomBytes :: "(nat \<Rightarrow> 8 word) \<Rightarrow> nat \<Rightarrow> 8 word list" where
  "randomBytes src n = map src [0..<n]"

definition hex_digit :: "nat \<Rightarrow> char" where
  "hex_digit d = ''0123456789abcdef'' ! d"

definition toString_hex :: "8 word list \<Rightarrow> string" where
  "toString_hex bs = concat (map (\<lambda>b. [hex_digit (unat b div 16), hex_digit (unat b mod 16)]) bs)"

definition randomInt :: "(nat \<Rightarrow> nat) \<Rightarrow> nat \<Rightarrow> nat \<Rightarrow> nat \<Rightarrow> nat" where
  "randomInt src k lo hi = lo + src k mod (hi - lo)"

subsection \<open>Users and stickers\<close>

definition MAX_CUSTOM_STICKERS :: nat where
  "MAX_CUSTOM_STICKERS = 60"

text \<open>\<^verbatim>\<open>String(name || '').trim().toLowerCase()\<close>, then the first user whose display name,
  treated the same way, is equal; null for a name that is empty after trimming.\<close>

definition getUserByDisplayName :: "store \<Rightarrow> string \<Rightarrow> user option" where
  "getUserByDisplayName s name =
     (let v = toLowerCase (trim name)
      in if v = [] then None
         else find (\<lambda>u. toLowerCase (trim (u_display_name u)) = v) (users s))"

definition getUserStickers :: "store \<Rightarrow> int \<Rightarrow> sticker list" where
  "getUserStickers s userId =
     (case find (\<lambda>u. u_id u = userId) (users s) of
        None \<Rightarrow> [] | Some u \<Rightarrow> u_custom_stickers u)"

text \<open>The two readings of the clock are the parameters \<open>now1\<close> and \<open>now2\<close>.\<close>

definition addUserSticker ::
  "store \<Rightarrow> (nat \<Rightarrow> 8 word) \<Rightarrow> int \<Rightarrow> int \<Rightarrow> int \<Rightarrow> string \<Rightarrow> string \<Rightarrow> string
     \<Rightarrow> (reason + sticker \<times> sticker list) \<times> store" where
  "addUserSticker s src now1 now2 i description previewUrl imageUrl =
     (case find (\<lambda>u. u_id u = i) (users s) of
        None \<Rightarrow> (Inl not_found, s)
      | Some usr \<Rightarrow>
          if length (u_custom_stickers usr) \<ge> MAX_CUSTOM_STICKERS then (Inl limit, s)
          else let stk = \<lparr>st_id = toString_hex (randomBytes src 8),
                           st_description = description, st_preview_url = previewUrl,
                           st_image_url = imageUrl, st_created_at = now1\<rparr>;
                   stickers = u_custom_stickers usr @ [stk]
               in (Inr (stk, stickers),
                   s\<lparr>users := update_first (\<lambda>u. u_id u = i)
                        (\<lambda>u. u\<lparr>u_custom_stickers := stickers, u_updated_at := now2\<rparr>)
                        (users s)\<rparr>))"

subsection \<open>Files\<close>

definition getFileByCode :: "store \<Rightarrow> string \<Rightarrow> file_record option" where
  "getFileByCode s code =
     (let normalized = toUpperCase (trim code)
      in if normalized = [] then None
         else find (\<lambda>f. f_code f = normalized) (files s))"

section \<open>The server\<close>

subsection \<open>File codes\<close>

definition FILE_CODE_ALPHABET :: string where
  "FILE_CODE_ALPHABET = ''ABCDEFGHJKLMNPQRSTUVWXYZ23456789''"

text \<open>The inner loop of generateFileCode: eight symbols, drawn by the calls number
  \<open>k\<close>, \<dots>, \<open>k + 7\<close> of \<^verbatim>\<open>crypto.randomInt\<close>.\<close>

definition sample_code :: "(nat \<Rightarrow> nat) \<Rightarrow> nat \<Rightarrow> string" where
  "sample_code ints k =
     map (\<lambda>i. FILE_CODE_ALPHABET ! randomInt ints (k + i) 0 (length FILE_CODE_ALPHABET)) [0..<8]"

definition fallback_code :: "(nat \<Rightarrow> 8 word) \<Rightarrow> string" where
  "fallback_code bytes = take 8 (toUpperCase (toString_hex (randomBytes bytes 6)))"

text \<open>The do-while loop, with the number of attempts made so far as argument; every
  attempt draws eight fresh numbers.\<close>

function generateFileCode_loop ::
  "store \<Rightarrow> (nat \<Rightarrow> nat) \<Rightarrow> (nat \<Rightarrow> 8 word) \<Rightarrow> nat \<Rightarrow> string" where
  "generateFileCode_loop s ints bytes attempts =
     (let code = sample_code ints (8 * attempts)
      in if getFileByCode s code = None then code
         else if attempts + 1 < 5 then generateFileCode_loop s ints bytes (attempts + 1)
         else fallback_code bytes)"
  by pat_completeness auto
termination
  by (relation "measure (\<lambda>(s, ints, bytes, attempts). 5 - attempts)") auto

definition generateFileCode :: "store \<Rightarrow> (nat \<Rightarrow> nat) \<Rightarrow> (nat \<Rightarrow> 8 word) \<Rightarrow> string" where
  "generateFileCode s ints bytes = generateFileCode_loop s ints bytes 0"

subsection \<open>Mentions\<close>

text \<open>
  One call of \<^verbatim>\<open>regex.exec\<close> for \<^verbatim>\<open>/@([^\s@]+)(?=\s|$)/g\<close> on the text from
  \<^verbatim>\<open>lastIndex\<close> on: the captured name of the next match and the text after it, or
  \<open>None\<close>. At an \<^verbatim>\<open>@\<close> the group takes the longest run of characters that are neither
  white space nor \<^verbatim>\<open>@\<close>; the match stands when the run is not empty and white space or
  the end follows. A shorter run is followed by a character of the run, so backtracking
  finds nothing more; the search then goes on one character further.
\<close>

definition name_char :: "char \<Rightarrow> bool" where
  "name_char c = (\<not> is_space c \<and> c \<noteq> CHR ''@'')"

fun regex_exec :: "string \<Rightarrow> (string \<times> string) option" where
  "regex_exec [] = None"
| "regex_exec (c # cs) =
     (if c = CHR ''@'' \<and> takeWhile name_char cs \<noteq> []
         \<and> (dropWhile name_char cs = [] \<or> is_space (hd (dropWhile name_char cs)))
      then Some (takeWhile name_char cs, dropWhile name_char cs)
      else regex_exec cs)"

text \<open>The while loop of extractMentions; \<open>ids\<close> is the array and \<open>mp\<close> the Map from names
  to ids, in insertion order.\<close>

function extractMentions_loop ::
  "store \<Rightarrow> int \<Rightarrow> string \<Rightarrow> int list \<Rightarrow> (string \<times> int) list
     \<Rightarrow> int list \<times> (string \<times> int) list" where
  "extractMentions_loop s senderId text ids mp =
     (case regex_exec text of
        None \<Rightarrow> (ids, mp)
      | Some (name, rest) \<Rightarrow>
          (case getUserByDisplayName s name of
             None \<Rightarrow> extractMentions_loop s senderId rest ids mp
           | Some usr \<Rightarrow>
               if u_id usr \<noteq> senderId \<and> map_of mp name = None
               then extractMentions_loop s senderId rest (ids @ [u_id usr])
                      (AList.update name (u_id usr) mp)
               else extractMentions_loop s senderId rest ids mp))"
  by pat_completeness auto
termination
proof -
  have shorter: "length rest < length t" if "regex_exec t = Some (name, rest)"
    for t name rest
    using that
  proof (induction t)
    case Nil
    then show ?case by simp
  next
    case (Cons c cs)
    have "length (dropWhile name_char cs) \<le> length cs"
      by (rule length_dropWhile_le)
    with Cons show ?case by (auto split: if_splits)
  qed
  show ?thesis
    by (relation "measure (\<lambda>(s, senderId, text, ids, mp). length text)")
      (auto dest: shorter)
qed

definition extractMentions :: "store \<Rightarrow> string \<Rightarrow> int \<Rightarrow> int list \<times> (string \<times> int) list" where
  "extractMentions s text senderId = extractMentions_loop s senderId text [] []"

text \<open>
  The specification of mention resolution, in its own words. \<open>all_matches\<close> are the names
  of all tokens of the text, left to right; \<open>first_occurrences\<close> keeps each distinct name
  once, at its first position; \<open>resolve_mention\<close> looks a name up by display name and
  leaves out the sender.
\<close>

function all_matches :: "string \<Rightarrow> string list" where
  "all_matches t =
     (case regex_exec t of None \<Rightarrow> [] | Some (name, rest) \<Rightarrow> name # all_matches rest)"
  by pat_completeness auto
termination
proof -
  have shorter: "length rest < length t" if "regex_exec t = Some (name, rest)"
    for t name rest
    using that
  proof (induction t)
    case Nil
    then show ?case by simp
  next
    case (Cons c cs)
    have "length (dropWhile name_char cs) \<le> length cs"
      by (rule length_dropWhile_le)
    with Cons show ?case by (auto split: if_splits)
  qed
  show ?thesis
    by (relation "measure length") (auto dest: shorter)
qed

primrec first_occurrences :: "'a list \<Rightarrow> 'a list" where
  "first_occurrences [] = []"
| "first_occurrences (x # xs) = x # filter (\<lambda>y. y \<noteq> x) (first_occurrences xs)"

definition resolve_mention :: "store \<Rightarrow> int \<Rightarrow> string \<Rightarrow> (string \<times> int) option" where
  "resolve_mention s senderId name =
     (case getUserByDisplayName s name of
        None \<Rightarrow> None
      | Some usr \<Rightarrow> if u_id usr \<noteq> senderId then Some (name, u_id usr) else None)"

definition mentions_spec :: "store \<Rightarrow> string \<Rightarrow> int \<Rightarrow> (string \<times> int) list" where
  "mentions_spec s text senderId =
     List.map_filter (resolve_mention s senderId) (first_occurrences (all_matches text))"

text \<open>One turn of the loop of extractMentions on the name of a match.\<close>

definition mention_step ::
  "store \<Rightarrow> int \<Rightarrow> string \<Rightarrow> int list \<times> (string \<times> int) list \<Rightarrow> int list \<times> (string \<times> int) list" where
  "mention_step s senderId name acc =
     (case resolve_mention s senderId name of
        None \<Rightarrow> acc
      | Some (n, i) \<Rightarrow>
          if map_of (snd acc) name = None then (fst acc @ [i], snd acc @ [(name, i)]) else acc)"

subsection \<open>Connections, presence and what the server sends\<close>

text \<open>
  What a client receives. Rendering (markdown, HTML, avatar URLs, the ISO form of a time)
  belongs to other modules and is left out of the payloads; the fixed notices of the
  source are constructors of \<open>system_text\<close>, and the text that stands for a withdrawn
  message is \<open>recalled_text\<close>.
\<close>

type_synonym socket_id = string




datatype payload_text = plain_text string | recalled_text name_label

record message_payload =
  p_id :: int
  p_userId :: "int option"
  p_author :: name_label
  p_text :: payload_text
  p_time :: int
  p_isDeleted :: bool
  p_replyToId :: "int option"
  p_mentions :: "int list"

definition formatMessagePayload :: "page_row \<Rightarrow> message_payload" where
  "formatMessagePayload row =
     (if r_user_id row = None then
        \<lparr>p_id = r_id row, p_userId = None, p_author = system_label,
         p_text = plain_text (r_content row), p_time = r_created_at row, p_isDeleted = False,
         p_replyToId = None, p_mentions = []\<rparr>
      else if r_is_deleted row \<noteq> 0 then
        \<lparr>p_id = r_id row, p_userId = r_user_id row, p_author = r_display_name row,
         p_text = recalled_text (r_display_name row), p_time = r_created_at row,
         p_isDeleted = True, p_replyToId = None, p_mentions = []\<rparr>
      else
        \<lparr>p_id = r_id row, p_userId = r_user_id row, p_author = r_display_name row,
         p_text = plain_text (r_content row), p_time = r_created_at row,
         p_isDeleted = (r_is_deleted row \<noteq> 0), p_replyToId = or_null (r_reply_to_id row),
         p_mentions = []\<rparr>)"





text \<open>
  The three Maps of the server, in insertion order. A Set of socket ids is a list
  without repetition, in insertion order. A pending timer is kept as its delay in
  milliseconds; \<^verbatim>\<open>clearTimeout\<close> together with \<^verbatim>\<open>disconnectTimers.delete\<close> removes it, and
  a removed timer does not fire.
\<close>

record server =
  connectedUsers :: "(socket_id \<times> int) list"
  userSockets :: "(int \<times> socket_id list) list"
  disconnectTimers :: "(int \<times> nat) list"

definition no_connections :: server where
  "no_connections = \<lparr>connectedUsers = [], userSockets = [], disconnectTimers = []\<rparr>"





definition HISTORY_PAGE_SIZE :: int where
  "HISTORY_PAGE_SIZE = 40"








subsection \<open>History requests\<close>

text \<open>The history-request handler of a connection, reduced to what it reads and sends:
  the cursor is a positive integer, else nothing is sent.\<close>

record history_chunk =
  hc_messages :: "message_payload list"
  hc_done :: bool
  hc_oldestId :: int

definition history_request :: "store \<Rightarrow> int \<Rightarrow> history_chunk option" where
  "history_request s beforeId =
     (if beforeId \<le> 0 then None
      else let rows = getMessagesPage s HISTORY_PAGE_SIZE (Some beforeId)
           in if rows = [] then Some \<lparr>hc_messages = [], hc_done = True, hc_oldestId = beforeId\<rparr>
              else let chunk = map formatMessagePayload rows
                   in Some \<lparr>hc_messages = chunk,
                             hc_done = (int (length rows) < HISTORY_PAGE_SIZE),
                             hc_oldestId = p_id (hd chunk)\<rparr>)"

subsection \<open>Incoming chat messages\<close>








section \<open>Example data\<close>

text \<open>Concrete users, messages, stores and server states on which the operations are
  run.\<close>

definition example_user :: "int \<Rightarrow> string \<Rightarrow> nat \<Rightarrow> user" where
  "example_user i name verified =
     \<lparr>u_id = i, u_email = name @ ''@example.org'', u_password_hash = ''x'',
      u_display_name = name, u_avatar_source = ''gravatar'', u_avatar_url = None,
      u_is_verified = verified, u_verification_token = None, u_verification_expires = None,
      u_reset_code_hash = None, u_reset_code_expires = None,
      u_created_at = 0, u_updated_at = 0, u_custom_stickers = []\<rparr>"

definition example_message :: "int \<Rightarrow> int option \<Rightarrow> message" where
  "example_message i author =
     \<lparr>m_id = i, m_user_id = author, m_content = ''text'', m_created_at = 1000 + i,
      m_reply_to_id = None, m_is_deleted = 0\<rparr>"

text \<open>A small log used to run the operations: three messages, the second one deleted,
  the third a system message (no author).\<close>

definition example_log :: store where
  "example_log = \<lparr>users = [],
     messages = [
       \<lparr>m_id = 1, m_user_id = Some 1, m_content = ''hi'', m_created_at = 100,
        m_reply_to_id = None, m_is_deleted = 0\<rparr>,
       \<lparr>m_id = 2, m_user_id = Some 2, m_content = ''yo'', m_created_at = 200,
        m_reply_to_id = Some 1, m_is_deleted = 1\<rparr>,
       \<lparr>m_id = 3, m_user_id = None, m_content = ''notice'', m_created_at = 300,
        m_reply_to_id = None, m_is_deleted = 0\<rparr>],
     files = [], nextUserId = 3, nextMessageId = 4, nextFileId = 1\<rparr>"


text \<open>In \<open>unordered_log\<close> the message list is not in id order. In \<open>orphan_log\<close> the
  newer message names an author that is not in the user list.\<close>

definition unordered_log :: store where
  "unordered_log = \<lparr>users = [],
     messages = [example_message 2 None, example_message 1 None],
     files = [], nextUserId = 1, nextMessageId = 3, nextFileId = 1\<rparr>"

definition orphan_log :: store where
  "orphan_log = \<lparr>users = [example_user 1 ''Ann'' 1],
     messages = [example_message 1 (Some 1), example_message 2 (Some 9)],
     files = [], nextUserId = 2, nextMessageId = 3, nextFileId = 1\<rparr>"

text \<open>\<open>orphan_log_40\<close>: one message of a known author, then forty of an unknown one.\<close>

definition orphan_log_40 :: store where
  "orphan_log_40 = \<lparr>users = [example_user 1 ''Ann'' 1],
     messages = example_message 1 (Some 1)
                # map (\<lambda>i. example_message (int i) (Some 9)) [2..<42],
     files = [], nextUserId = 2, nextMessageId = 42, nextFileId = 1\<rparr>"

text \<open>A store with three users, the third one not verified, two messages and one file;
  and a store whose only user holds sixty stickers.\<close>

definition chat_store :: store where
  "chat_store = \<lparr>
     users = [example_user 1 ''Ann'' 1, example_user 2 ''Bob'' 1, example_user 3 ''Cy'' 0],
     messages = [example_message 1 (Some 1), example_message 2 (Some 2)],
     files = [\<lparr>f_id = 1, f_user_id = 1, f_code = ''AAAAAAAA'', f_object_key = ''k'',
               f_file_name = ''a.txt'', f_size = 3, f_content_type = ''text/plain'',
               f_created_at = 5\<rparr>],
     nextUserId = 4, nextMessageId = 3, nextFileId = 2\<rparr>"

definition full_sticker_store :: store where
  "full_sticker_store = \<lparr>users = [(example_user 1 ''Ann'' 1)\<lparr>u_custom_stickers :=
        replicate 60 \<lparr>st_id = ''00'', st_description = ''d'', st_preview_url = ''p'',
                       st_image_url = ''i'', st_created_at = 1\<rparr>\<rparr>],
     messages = [], files = [], nextUserId = 2, nextMessageId = 1, nextFileId = 1\<rparr>"



section \<open>Properties of the message log\<close>

declare bit_length.simps [simp del]

lemma bit_length_bound: "n < 2 ^ k \<Longrightarrow> bit_length n \<le> k"
proof (induction k arbitrary: n)
  case 0
  then show ?case by (simp add: bit_length.simps)
next
  case (Suc k)
  show ?case
  proof (cases "n \<le> 0")
    case True
    then show ?thesis by (simp add: bit_length.simps)
  next
    case False
    from Suc.prems have "n div 2 < 2 ^ k" by simp
    then have "bit_length (n div 2) \<le> k" by (rule Suc.IH)
    with False show ?thesis by (subst bit_length.simps) simp
  qed
qed

lemma round_magnitude_exact: "n \<le> 2 ^ 53 \<Longrightarrow> round_magnitude n = n"
proof (cases "n < 2 ^ 53")
  case True
  then have "bit_length n - 53 = 0" using bit_length_bound [of n 53] by simp
  then show ?thesis by (simp add: round_magnitude_def)
next
  case False
  assume "n \<le> 2 ^ 53"
  with False have n: "n = 9007199254740992" by simp
  have "round_magnitude 9007199254740992 = 9007199254740992" by code_simp
  with n show ?thesis by simp
qed

lemma round_double_exact: "\<bar>x\<bar> \<le> 2 ^ 53 \<Longrightarrow> round_double x = x"
proof -
  assume a: "\<bar>x\<bar> \<le> 2 ^ 53"
  then have "round_magnitude \<bar>x\<bar> = \<bar>x\<bar>" by (rule round_magnitude_exact)
  then have "round_double x = sgn x * \<bar>x\<bar>" by (simp add: round_double_def)
  then show ?thesis by (simp only: mult_sgn_abs)
qed

lemma js_increment_exact: "- (2 ^ 53) \<le> n \<Longrightarrow> n < 2 ^ 53 \<Longrightarrow> js_increment n = n + 1"
  unfolding js_increment_def by (rule round_double_exact) simp











subsection \<open>Soft deletion\<close>

lemma find_split:
  "find P xs = Some m \<Longrightarrow>
     \<exists>pre post. xs = pre @ m # post \<and> list_all (\<lambda>x. \<not> P x) pre \<and> P m
        \<and> update_first P f xs = pre @ f m # post"
proof (induction xs)
  case Nil
  then show ?case by simp
next
  case (Cons x xs)
  show ?case
  proof (cases "P x")
    case True
    with Cons.prems have "x = m" by simp
    with True have "x # xs = [] @ m # xs \<and> list_all (\<lambda>x. \<not> P x) [] \<and> P m
        \<and> update_first P f (x # xs) = [] @ f m # xs"
      by simp
    then show ?thesis by blast
  next
    case False
    with Cons.prems have "find P xs = Some m" by simp
    from Cons.IH [OF this] obtain pre post where
      h: "xs = pre @ m # post" "list_all (\<lambda>x. \<not> P x) pre" "P m"
         "update_first P f xs = pre @ f m # post"
      by blast
    from False h have "x # xs = (x # pre) @ m # post \<and> list_all (\<lambda>x. \<not> P x) (x # pre) \<and> P m
        \<and> update_first P f (x # xs) = (x # pre) @ f m # post"
      by simp
    then show ?thesis by blast
  qed
qed

lemma find_after_update:
  "list_all (\<lambda>x. \<not> P x) pre \<Longrightarrow> P y \<Longrightarrow> find P (pre @ y # post) = Some y"
  by (induction pre) auto

lemma deleteMessage_denied:
  "find (\<lambda>m. m_id m = mid) (messages s) = Some m \<Longrightarrow> m_user_id m \<noteq> req \<Longrightarrow>
     deleteMessage s mid req = (Inl permission_denied, s)"
  by (simp add: deleteMessage_def)

lemma deleteMessage_denied_repeat:
  "find (\<lambda>m. m_id m = mid) (messages s) = Some m \<Longrightarrow> m_user_id m \<noteq> req \<Longrightarrow>
     ((\<lambda>t. snd (deleteMessage t mid req)) ^^ n) s = s"
  by (induction n) (simp_all add: deleteMessage_denied)

lemma deleteMessage_flip:
  assumes f: "find (\<lambda>m. m_id m = mid) (messages s) = Some m"
    and a: "m_user_id m = req" and d: "m_is_deleted m = 0"
  shows "\<exists>pre post. messages s = pre @ m # post \<and> list_all (\<lambda>x. m_id x \<noteq> mid) pre
           \<and> deleteMessage s mid req
               = (Inr deleted, s\<lparr>messages := pre @ m\<lparr>m_is_deleted := 1\<rparr> # post\<rparr>)
           \<and> deleteMessage (s\<lparr>messages := pre @ m\<lparr>m_is_deleted := 1\<rparr> # post\<rparr>) mid req
               = (Inr already, s\<lparr>messages := pre @ m\<lparr>m_is_deleted := 1\<rparr> # post\<rparr>)"
proof -
  from find_split [OF f, of "\<lambda>m. m\<lparr>m_is_deleted := 1\<rparr>"] obtain pre post where
    h: "messages s = pre @ m # post" "list_all (\<lambda>x. m_id x \<noteq> mid) pre" "m_id m = mid"
       "update_first (\<lambda>m. m_id m = mid) (\<lambda>m. m\<lparr>m_is_deleted := 1\<rparr>) (messages s)
          = pre @ m\<lparr>m_is_deleted := 1\<rparr> # post"
    by blast
  let ?s' = "s\<lparr>messages := pre @ m\<lparr>m_is_deleted := 1\<rparr> # post\<rparr>"
  have one: "deleteMessage s mid req = (Inr deleted, ?s')"
    using f a d h(4) by (simp add: deleteMessage_def)
  have "find (\<lambda>x. m_id x = mid) (pre @ m\<lparr>m_is_deleted := 1\<rparr> # post)
          = Some (m\<lparr>m_is_deleted := 1\<rparr>)"
    using h(2,3) by (intro find_after_update) simp_all
  then have two: "deleteMessage ?s' mid req = (Inr already, ?s')"
    using a by (simp add: deleteMessage_def)
  from h(1,2) one two show ?thesis by blast
qed

text \<open>
  Claim C3. The result contract of deleteMessage, on every store. With no message of the
  given id it fails with \<open>not_found\<close>. When the first message of that id has another
  author than the requester it fails with \<open>permission_denied\<close> and the store is the same,
  however many times the call is repeated. When the author asks and the message is already
  deleted, the call succeeds with \<open>already\<close> and the store (so the content) is the same.
  Otherwise the call succeeds, the store changes only in that one message, that message
  changes only in its flag (id, author, content and timestamp of every message are as
  before), and a second call reports \<open>already\<close>.
\<close>

theorem deleteMessage_contract:
  "(find (\<lambda>m. m_id m = mid) (messages s) = None \<longrightarrow>
      deleteMessage s mid req = (Inl not_found, s))
   \<and> (\<forall>m. find (\<lambda>m. m_id m = mid) (messages s) = Some m \<longrightarrow>
        (m_user_id m \<noteq> req \<longrightarrow>
           deleteMessage s mid req = (Inl permission_denied, s)
           \<and> ((\<lambda>t. snd (deleteMessage t mid req)) ^^ n) s = s)
      \<and> (m_user_id m = req \<and> m_is_deleted m \<noteq> 0 \<longrightarrow>
           deleteMessage s mid req = (Inr already, s))
      \<and> (m_user_id m = req \<and> m_is_deleted m = 0 \<longrightarrow>
           (\<exists>pre post. messages s = pre @ m # post \<and> list_all (\<lambda>x. m_id x \<noteq> mid) pre
              \<and> deleteMessage s mid req
                  = (Inr deleted, s\<lparr>messages := pre @ m\<lparr>m_is_deleted := 1\<rparr> # post\<rparr>))
           \<and> map (\<lambda>x. (m_id x, m_user_id x, m_content x, m_created_at x))
                 (messages (snd (deleteMessage s mid req)))
               = map (\<lambda>x. (m_id x, m_user_id x, m_content x, m_created_at x)) (messages s)
           \<and> deleteMessage (snd (deleteMessage s mid req)) mid req
               = (Inr already, snd (deleteMessage s mid req))))"
proof (intro conjI allI impI)
  assume "find (\<lambda>m. m_id m = mid) (messages s) = None"
  then show "deleteMessage s mid req = (Inl not_found, s)"
    by (simp add: deleteMessage_def)
next
  fix m
  assume "find (\<lambda>m. m_id m = mid) (messages s) = Some m" "m_user_id m \<noteq> req"
  then show "deleteMessage s mid req = (Inl permission_denied, s)"
    by (rule deleteMessage_denied)
next
  fix m
  assume "find (\<lambda>m. m_id m = mid) (messages s) = Some m" "m_user_id m \<noteq> req"
  then show "((\<lambda>t. snd (deleteMessage t mid req)) ^^ n) s = s"
    by (rule deleteMessage_denied_repeat)
next
  fix m
  assume "find (\<lambda>m. m_id m = mid) (messages s) = Some m"
    "m_user_id m = req \<and> m_is_deleted m \<noteq> 0"
  then show "deleteMessage s mid req = (Inr already, s)"
    by (simp add: deleteMessage_def)
next
  fix m
  assume f: "find (\<lambda>m. m_id m = mid) (messages s) = Some m"
    and "m_user_id m = req \<and> m_is_deleted m = 0"
  then have a: "m_user_id m = req" and d: "m_is_deleted m = 0" by simp_all
  from deleteMessage_flip [OF f a d] obtain pre post where
    h: "messages s = pre @ m # post" "list_all (\<lambda>x. m_id x \<noteq> mid) pre"
       "deleteMessage s mid req
          = (Inr deleted, s\<lparr>messages := pre @ m\<lparr>m_is_deleted := 1\<rparr> # post\<rparr>)"
       "deleteMessage (s\<lparr>messages := pre @ m\<lparr>m_is_deleted := 1\<rparr> # post\<rparr>) mid req
          = (Inr already, s\<lparr>messages := pre @ m\<lparr>m_is_deleted := 1\<rparr> # post\<rparr>)"
    by blast
  from h(1,2,3) show "\<exists>pre post. messages s = pre @ m # post
      \<and> list_all (\<lambda>x. m_id x \<noteq> mid) pre
      \<and> deleteMessage s mid req
          = (Inr deleted, s\<lparr>messages := pre @ m\<lparr>m_is_deleted := 1\<rparr> # post\<rparr>)"
    by blast
  from h(1,3) show "map (\<lambda>x. (m_id x, m_user_id x, m_content x, m_created_at x))
                 (messages (snd (deleteMessage s mid req)))
               = map (\<lambda>x. (m_id x, m_user_id x, m_content x, m_created_at x)) (messages s)"
    by simp
  from h(3,4) show "deleteMessage (snd (deleteMessage s mid req)) mid req
               = (Inr already, snd (deleteMessage s mid req))"
    by simp
qed

theorem deleteMessage_contract_witness:
  "deleteMessage example_log 9 (Some 1) = (Inl not_found, example_log)
   \<and> deleteMessage example_log 1 (Some 2) = (Inl permission_denied, example_log)
   \<and> ((\<lambda>t. snd (deleteMessage t 1 (Some 2))) ^^ 3) example_log = example_log
   \<and> deleteMessage example_log 2 (Some 2) = (Inr already, example_log)
   \<and> fst (deleteMessage example_log 1 (Some 1)) = Inr deleted
   \<and> map m_is_deleted (messages (snd (deleteMessage example_log 1 (Some 1)))) = [1, 1, 0]
   \<and> map m_content (messages (snd (deleteMessage example_log 1 (Some 1))))
       = [''hi'', ''yo'', ''notice'']
   \<and> fst (deleteMessage (snd (deleteMessage example_log 1 (Some 1))) 1 (Some 1)) = Inr already"
  using deleteMessage_contract [where s = example_log and mid = 9 and req = "Some 1"]
    deleteMessage_contract [where s = example_log and mid = 1 and req = "Some 2" and n = 3]
    deleteMessage_contract [where s = example_log and mid = 2 and req = "Some 2"]
    deleteMessage_contract [where s = example_log and mid = 1 and req = "Some 1"]
  by (simp add: example_log_def deleteMessage_def)

lemma deleteMessage_keeps_system_messages:
  "filter (\<lambda>x. m_user_id x = None) (messages (snd (deleteMessage s mid (Some uid))))
     = filter (\<lambda>x. m_user_id x = None) (messages s)"
proof (cases "find (\<lambda>m. m_id m = mid) (messages s)")
  case None
  then show ?thesis by (simp add: deleteMessage_def)
next
  case (Some m)
  show ?thesis
  proof (cases "m_user_id m = Some uid \<and> m_is_deleted m = 0")
    case True
    then have a: "m_user_id m = Some uid" and d: "m_is_deleted m = 0" by simp_all
    from deleteMessage_flip [OF Some a d] obtain pre post where
      h: "messages s = pre @ m # post"
         "deleteMessage s mid (Some uid)
            = (Inr deleted, s\<lparr>messages := pre @ m\<lparr>m_is_deleted := 1\<rparr> # post\<rparr>)"
      by blast
    with True show ?thesis by simp
  next
    case False
    with Some show ?thesis by (auto simp: deleteMessage_def)
  qed
qed

text \<open>
  Claim C10. A system message has no author (its author id is null). When the message
  that deleteMessage finds for the id is a system message, then whatever non-null user id
  asks, the answer is \<open>permission_denied\<close> and the store is the same. More generally no
  call with a non-null user id changes any system message of the log.
\<close>

theorem deleteMessage_system_message_denied:
  "(\<forall>m. find (\<lambda>m. m_id m = mid) (messages s) = Some m \<and> m_user_id m = None \<longrightarrow>
      deleteMessage s mid (Some uid) = (Inl permission_denied, s))
   \<and> filter (\<lambda>x. m_user_id x = None) (messages (snd (deleteMessage s mid (Some uid))))
       = filter (\<lambda>x. m_user_id x = None) (messages s)"
proof (intro conjI allI impI)
  fix m
  assume "find (\<lambda>m. m_id m = mid) (messages s) = Some m \<and> m_user_id m = None"
  then show "deleteMessage s mid (Some uid) = (Inl permission_denied, s)"
    by (simp add: deleteMessage_def)
next
  show "filter (\<lambda>x. m_user_id x = None) (messages (snd (deleteMessage s mid (Some uid))))
       = filter (\<lambda>x. m_user_id x = None) (messages s)"
    by (rule deleteMessage_keeps_system_messages)
qed

theorem deleteMessage_system_message_denied_witness:
  "find (\<lambda>m. m_id m = 3) (messages example_log) = Some (messages example_log ! 2)
   \<and> m_user_id (messages example_log ! 2) = None
   \<and> deleteMessage example_log 3 (Some 1) = (Inl permission_denied, example_log)"
proof -
  have f: "find (\<lambda>m. m_id m = 3) (messages example_log) = Some (messages example_log ! 2)"
    by (simp add: example_log_def)
  have a: "m_user_id (messages example_log ! 2) = None"
    by (simp add: example_log_def)
  from f a deleteMessage_system_message_denied [of 3 example_log 1] show ?thesis by blast
qed

subsection \<open>Pages\<close>

lemma slice_last_length: "length (slice_last n xs) \<le> n"
  by (simp add: slice_last_def)

lemma slice_last_set: "set (slice_last n xs) \<subseteq> set xs"
  by (simp add: slice_last_def set_drop_subset)

lemma map_filter_length: "length (List.map_filter f xs) \<le> length xs"
  by (simp add: List.map_filter_def) 

lemma page_row_of_id: "page_row_of s m = Some r \<Longrightarrow> r_id r = m_id m"
  by (auto simp: page_row_of_def Let_def split: if_splits)

lemma page_rows_ids:
  "map r_id (List.map_filter (page_row_of s) xs) = map m_id (filter (\<lambda>m. page_row_of s m \<noteq> None) xs)"
  by (induction xs) (auto simp: page_row_of_id split: option.splits)

lemma getMessagesPage_alt:
  "getMessagesPage s lim b =
     (if lim \<le> 0 then [] else List.map_filter (page_row_of s) (slice_last (nat lim) (history_before s b)))"
  by (auto simp: getMessagesPage_def history_before_def Let_def max_def split: option.splits)

lemma getMessagesPage_length: "length (getMessagesPage s lim b) \<le> nat (max 0 lim)"
proof (cases "lim \<le> 0")
  case True
  then show ?thesis by (simp add: getMessagesPage_alt)
next
  case False
  have "length (List.map_filter (page_row_of s) (slice_last (nat lim) (history_before s b)))
      \<le> length (slice_last (nat lim) (history_before s b))"
    by (rule map_filter_length)
  also have "\<dots> \<le> nat lim" by (rule slice_last_length)
  finally show ?thesis using False by (simp add: getMessagesPage_alt max_def)
qed

lemma getMessagesPage_ids_subset:
  assumes a: "r \<in> set (getMessagesPage s lim b)"
  shows "\<exists>m \<in> set (history_before s b). m_id m = r_id r"
proof -
  from a have pos: "\<not> lim \<le> 0" by (auto simp: getMessagesPage_alt split: if_splits)
  from a have "r_id r \<in> set (map r_id (getMessagesPage s lim b))" by simp
  also have "map r_id (getMessagesPage s lim b)
      = map m_id (filter (\<lambda>m. page_row_of s m \<noteq> None) (slice_last (nat lim) (history_before s b)))"
    using pos by (simp only: getMessagesPage_alt page_rows_ids if_False)
  finally obtain m where "m \<in> set (slice_last (nat lim) (history_before s b))" "m_id m = r_id r"
    by auto
  with slice_last_set [of "nat lim" "history_before s b"] show ?thesis by auto
qed

lemma getMessagesPage_before: "r \<in> set (getMessagesPage s lim (Some c)) \<Longrightarrow> r_id r < c"
  by (drule getMessagesPage_ids_subset) (auto simp: history_before_def)

lemma sorted_wrt_map_filter: "sorted_wrt R (map f xs) \<Longrightarrow> sorted_wrt R (map f (filter P xs))"
  by (induction xs) auto

lemma sorted_wrt_map_drop: "sorted_wrt R (map f xs) \<Longrightarrow> sorted_wrt R (map f (drop n xs))"
  unfolding drop_map [symmetric] by (rule sorted_wrt_drop)

lemma getMessagesPage_sorted:
  assumes "sorted_wrt (<) (map m_id (messages s))"
  shows "sorted_wrt (<) (map r_id (getMessagesPage s lim b))"
proof (cases "lim \<le> 0")
  case True
  then show ?thesis by (simp add: getMessagesPage_alt)
next
  case False
  from assms have "sorted_wrt (<) (map m_id (history_before s b))"
    by (cases b) (simp_all add: history_before_def sorted_wrt_map_filter)
  then have "sorted_wrt (<) (map m_id (slice_last (nat lim) (history_before s b)))"
    unfolding slice_last_def by (rule sorted_wrt_map_drop)
  then have "sorted_wrt (<) (map m_id (filter (\<lambda>m. page_row_of s m \<noteq> None)
       (slice_last (nat lim) (history_before s b))))"
    by (rule sorted_wrt_map_filter)
  with False show ?thesis by (simp add: getMessagesPage_alt page_rows_ids)
qed

lemma filter_length_less:
  "(\<And>x. x \<in> set xs \<Longrightarrow> P x \<Longrightarrow> Q x) \<Longrightarrow> y \<in> set xs \<Longrightarrow> Q y \<Longrightarrow> \<not> P y \<Longrightarrow>
     length (filter P xs) < length (filter Q xs)"
proof (induction xs)
  case Nil
  then show ?case by simp
next
  case (Cons x xs)
  have le: "length (filter P xs) \<le> length (filter Q xs)"
  proof -
    have "filter P xs = filter P (filter Q xs)"
      using Cons.prems(1) by (auto intro!: filter_cong)
    then have "length (filter P xs) = length (filter P (filter Q xs))" by simp
    also have "\<dots> \<le> length (filter Q xs)" by (rule length_filter_le)
    finally show ?thesis .
  qed
  show ?case
  proof (cases "y = x")
    case True
    with Cons.prems le show ?thesis by simp
  next
    case False
    with Cons.prems have "y \<in> set xs" by simp
    with Cons have "length (filter P xs) < length (filter Q xs)" by simp
    with Cons.prems(1) [of x] show ?thesis by auto
  qed
qed

lemma history_before_shrinks:
  assumes r: "r \<in> set (getMessagesPage s lim b)"
  shows "length (history_before s (Some (r_id r))) < length (history_before s b)"
proof -
  from getMessagesPage_ids_subset [OF r] obtain m where
    m: "m \<in> set (history_before s b)" "m_id m = r_id r" by blast
  show ?thesis
  proof (cases b)
    case None
    with m have "m \<in> set (messages s)" by (simp add: history_before_def)
    then have "length (filter (\<lambda>x. m_id x < r_id r) (messages s)) < length (filter (\<lambda>x. True) (messages s))"
      using m(2) by (intro filter_length_less [where y = m]) simp_all
    with None show ?thesis by (simp add: history_before_def)
  next
    case (Some c)
    with m have mm: "m \<in> set (messages s)" "m_id m < c" by (simp_all add: history_before_def)
    then have "length (filter (\<lambda>x. m_id x < r_id r) (messages s)) < length (filter (\<lambda>x. m_id x < c) (messages s))"
      using m(2) by (intro filter_length_less [where y = m]) simp_all
    with Some show ?thesis by (simp add: history_before_def)
  qed
qed

lemma page_walk_ends:
  "0 < lim \<Longrightarrow> length (history_before s b) < fuel \<Longrightarrow>
     \<exists>pages. page_walk fuel s lim b = Some pages \<and> pages \<noteq> [] \<and> int (length (last pages)) < lim"
proof (induction fuel arbitrary: b)
  case 0
  then show ?case by simp
next
  case (Suc fuel)
  let ?rows = "getMessagesPage s lim b"
  show ?case
  proof (cases "int (length ?rows) < lim")
    case True
    then show ?thesis by (simp add: Let_def)
  next
    case False
    with Suc.prems(1) have ne: "?rows \<noteq> []" by auto
    let ?c = "Min (set (map r_id ?rows))"
    from ne have "?c \<in> set (map r_id ?rows)" by (intro Min_in) simp_all
    then obtain r where r: "r \<in> set ?rows" "r_id r = ?c" by auto
    from history_before_shrinks [OF r(1)] r(2) Suc.prems(2)
    have "length (history_before s (Some ?c)) < fuel" by simp
    from Suc.IH [OF Suc.prems(1) this] obtain pages where
      p: "page_walk fuel s lim (Some ?c) = Some pages" "pages \<noteq> []" "int (length (last pages)) < lim"
      by blast
    with False ne show ?thesis by (simp add: Let_def)
  qed
qed

lemma history_before_length: "length (history_before s b) \<le> length (messages s)"
  by (cases b) (simp_all add: history_before_def)

lemma log_ordered_defaultStore: "log_ordered defaultStore"
  by (simp add: log_ordered_def defaultStore_def)

lemma log_ordered_saveMessage:
  assumes "log_ordered s" and lo: "- (2 ^ 53) \<le> nextMessageId s" and hi: "nextMessageId s < 2 ^ 53"
  shows "log_ordered (snd (saveMessage s userId content createdAt replyToId))"
proof -
  from assms have a: "sorted_wrt (<) (map m_id (messages s))"
    and b: "list_all (\<lambda>m. m_id m < nextMessageId s) (messages s)"
    by (simp_all add: log_ordered_def)
  from b have c: "\<forall>m \<in> set (messages s). m_id m < nextMessageId s"
    by (simp add: list_all_iff)
  have n: "js_increment (nextMessageId s) = nextMessageId s + 1"
    using lo hi by (rule js_increment_exact)
  from a c have "sorted_wrt (<) (map m_id (messages s) @ [nextMessageId s])"
    by (simp add: sorted_wrt_append)
  moreover from c have "list_all (\<lambda>m. m_id m < nextMessageId s + 1) (messages s)"
    by (auto simp: list_all_iff)
  ultimately show ?thesis
    by (simp add: log_ordered_def saveMessage_def Let_def n)
qed

lemma update_first_map_id:
  "(\<And>x. g (f x) = g x) \<Longrightarrow> map g (update_first P f xs) = map g xs"
  by (induction xs) auto

lemma log_ordered_deleteMessage:
  assumes "log_ordered s"
  shows "log_ordered (snd (deleteMessage s mid req))"
proof -
  let ?xs = "update_first (\<lambda>m. m_id m = mid) (\<lambda>m. m\<lparr>m_is_deleted := 1\<rparr>) (messages s)"
  have m: "map m_id ?xs = map m_id (messages s)"
    by (rule update_first_map_id) simp
  have l: "list_all (\<lambda>m. m_id m < n) xs \<longleftrightarrow> list_all (\<lambda>i. i < n) (map m_id xs)"
    for n and xs :: "message list"
    by (simp add: list_all_iff)
  from assms have "sorted_wrt (<) (map m_id ?xs)"
    by (simp only: m log_ordered_def)
  moreover from assms have "list_all (\<lambda>m. m_id m < nextMessageId s) ?xs"
    by (simp only: l m log_ordered_def)
  ultimately have "log_ordered (s\<lparr>messages := ?xs\<rparr>)"
    by (simp add: log_ordered_def)
  with assms show ?thesis
    by (simp add: deleteMessage_def split: option.splits)
qed

lemma short_page_is_all_history:
  assumes pos: "0 < lim"
    and known: "list_all (\<lambda>m. page_row_of s m \<noteq> None) (messages s)"
    and short: "int (length (getMessagesPage s lim b)) < lim"
  shows "map r_id (getMessagesPage s lim b) = map m_id (history_before s b)"
proof -
  let ?h = "history_before s b"
  let ?sl = "slice_last (nat lim) ?h"
  have sub: "set ?sl \<subseteq> set (messages s)"
    using slice_last_set [of "nat lim" ?h] by (cases b) (auto simp: history_before_def)
  with known have "filter (\<lambda>m. page_row_of s m \<noteq> None) ?sl = ?sl"
    by (auto simp: list_all_iff filter_id_conv)
  with pos have ids: "map r_id (getMessagesPage s lim b) = map m_id ?sl"
    by (simp add: getMessagesPage_alt page_rows_ids)
  then have "length (getMessagesPage s lim b) = length ?sl"
    by (metis length_map)
  with short have "length ?sl < nat lim" by simp
  then have "?sl = ?h" by (simp add: slice_last_def)
  with ids show ?thesis by simp
qed

text \<open>
  Claim C4, as amended. On every store, for every limit and cursor, a page holds at most
  \<open>max 0 limit\<close> messages and every id on it is below the cursor when there is one. When
  the message list is in ascending id order (the order saveMessage builds), the ids of a
  page ascend strictly. For a limit above 0, the walk that asks again with the smallest
  id of the previous page reaches a page shorter than the limit within
  \<open>length (messages s) + 1\<close> calls.
\<close>

theorem getMessagesPage_contract:
  "length (getMessagesPage s lim b) \<le> nat (max 0 lim)
   \<and> (sorted_wrt (<) (map m_id (messages s)) \<longrightarrow>
        sorted_wrt (<) (map r_id (getMessagesPage s lim b)))
   \<and> (\<forall>r \<in> set (getMessagesPage s lim (Some c)). r_id r < c)
   \<and> (0 < lim \<longrightarrow>
        (\<forall>fuel. length (messages s) < fuel \<longrightarrow>
           (\<exists>pages. page_walk fuel s lim b = Some pages \<and> pages \<noteq> []
              \<and> int (length (last pages)) < lim)))"
proof (intro conjI impI allI ballI)
  show "length (getMessagesPage s lim b) \<le> nat (max 0 lim)"
    by (rule getMessagesPage_length)
next
  assume "sorted_wrt (<) (map m_id (messages s))"
  then show "sorted_wrt (<) (map r_id (getMessagesPage s lim b))"
    by (rule getMessagesPage_sorted)
next
  fix r
  assume "r \<in> set (getMessagesPage s lim (Some c))"
  then show "r_id r < c" by (rule getMessagesPage_before)
next
  fix fuel
  assume pos: "0 < lim" and "length (messages s) < fuel"
  with history_before_length [of s b] have "length (history_before s b) < fuel" by simp
  with pos show "\<exists>pages. page_walk fuel s lim b = Some pages \<and> pages \<noteq> []
      \<and> int (length (last pages)) < lim"
    by (rule page_walk_ends)
qed

theorem getMessagesPage_contract_witness:
  "sorted_wrt (<) (map m_id (messages orphan_log))
   \<and> map r_id (getMessagesPage orphan_log 2 (Some 2)) = [1]
   \<and> (0::int) < 2 \<and> length (messages orphan_log) < 3
   \<and> (\<exists>pages. page_walk 3 orphan_log 2 (Some 2) = Some pages \<and> pages \<noteq> []
        \<and> int (length (last pages)) < 2)"
  using getMessagesPage_contract [of orphan_log 2 "Some 2" 2]
  by (simp add: orphan_log_def example_message_def getMessagesPage_def slice_last_def
      page_row_of_def author_of_def getUserById_def example_user_def)

text \<open>
  The claim as first stated fails in three places. In a store whose message list is not
  in id order, a page repeats that order. With the limit 0 every page is empty, which is
  not fewer than 0 messages, and the walk has no next cursor to go on with. With a
  negative limit the empty page is longer than the limit.
\<close>

theorem getMessagesPage_every_store_every_limit_counterexample:
  "map r_id (getMessagesPage unordered_log 2 None) = [2, 1]
   \<and> \<not> sorted_wrt (<) (map r_id (getMessagesPage unordered_log 2 None))
   \<and> getMessagesPage example_log 0 (Some 4) = []
   \<and> \<not> int (length (getMessagesPage example_log 0 (Some 4))) < 0
   \<and> page_walk 10 example_log 0 (Some 4) = None
   \<and> \<not> int (length (getMessagesPage example_log (- 1) None)) \<le> - 1"
proof -
  have a: "map r_id (getMessagesPage unordered_log 2 None) = [2, 1]"
    by code_simp
  have b: "getMessagesPage example_log 0 (Some 4) = []"
    by (simp add: getMessagesPage_def)
  have c: "page_walk 10 example_log 0 (Some 4) = None"
    by code_simp
  have d: "getMessagesPage example_log (- 1) None = []"
    by (simp add: getMessagesPage_def)
  from a b c d show ?thesis by simp
qed

text \<open>
  Claim C5 says that a page shorter than the limit means no history is left. The code
  cuts the page to the limit first and drops the messages of unknown authors afterwards,
  so a page can come back short, even empty, while older messages that a later page
  returns are still there. In \<open>orphan_log\<close> the page of limit 1 is empty although message 1
  is returned for the cursor 2; in \<open>orphan_log_40\<close> the history-request handler answers the
  cursor 42 with no messages and \<open>done = True\<close> although message 1 is returned for the
  cursor 2.
\<close>

theorem short_page_with_history_left:
  "getMessagesPage orphan_log 1 None = []
   \<and> map r_id (getMessagesPage orphan_log 1 (Some 2)) = [1]
   \<and> history_request orphan_log_40 42
       = Some \<lparr>hc_messages = [], hc_done = True, hc_oldestId = 42\<rparr>
   \<and> map r_id (getMessagesPage orphan_log_40 HISTORY_PAGE_SIZE (Some 2)) = [1]"
proof -
  have a: "getMessagesPage orphan_log 1 None = []"
    by code_simp
  have b: "map r_id (getMessagesPage orphan_log 1 (Some 2)) = [1]"
    by code_simp
  have c: "history_request orphan_log_40 42
       = Some \<lparr>hc_messages = [], hc_done = True, hc_oldestId = 42\<rparr>"
    by code_simp
  have d: "map r_id (getMessagesPage orphan_log_40 HISTORY_PAGE_SIZE (Some 2)) = [1]"
    by code_simp
  from a b c d show ?thesis by simp
qed

subsection \<open>Stickers\<close>

lemma toString_hex_length: "length (toString_hex bs) = 2 * length bs"
  by (induction bs) (simp_all add: toString_hex_def)

lemma randomBytes_length: "length (randomBytes src n) = n"
  by (simp add: randomBytes_def)

lemma addUserSticker_absent:
  "find (\<lambda>u. u_id u = i) (users s) = None \<Longrightarrow>
     addUserSticker s src now1 now2 i description previewUrl imageUrl = (Inl not_found, s)"
  by (simp add: addUserSticker_def)

lemma addUserSticker_full:
  "find (\<lambda>u. u_id u = i) (users s) = Some usr \<Longrightarrow> 60 \<le> length (u_custom_stickers usr) \<Longrightarrow>
     addUserSticker s src now1 now2 i description previewUrl imageUrl = (Inl limit, s)"
  by (simp add: addUserSticker_def MAX_CUSTOM_STICKERS_def)

lemma addUserSticker_appends:
  assumes f: "find (\<lambda>u. u_id u = i) (users s) = Some usr"
    and l: "length (u_custom_stickers usr) < 60"
  shows "\<exists>stk pre post.
      addUserSticker s src now1 now2 i description previewUrl imageUrl
        = (Inr (stk, u_custom_stickers usr @ [stk]),
           s\<lparr>users := pre @ usr\<lparr>u_custom_stickers := u_custom_stickers usr @ [stk],
                                  u_updated_at := now2\<rparr> # post\<rparr>)
      \<and> users s = pre @ usr # post \<and> list_all (\<lambda>u. u_id u \<noteq> i) pre
      \<and> stk = \<lparr>st_id = toString_hex (randomBytes src 8), st_description = description,
                 st_preview_url = previewUrl, st_image_url = imageUrl, st_created_at = now1\<rparr>"
proof -
  let ?stk = "\<lparr>st_id = toString_hex (randomBytes src 8), st_description = description,
                 st_preview_url = previewUrl, st_image_url = imageUrl, st_created_at = now1\<rparr>"
  let ?f = "\<lambda>u. u\<lparr>u_custom_stickers := u_custom_stickers usr @ [?stk], u_updated_at := now2\<rparr>"
  from find_split [OF f, of ?f] obtain pre post where
    h: "users s = pre @ usr # post" "list_all (\<lambda>u. u_id u \<noteq> i) pre"
       "update_first (\<lambda>u. u_id u = i) ?f (users s) = pre @ ?f usr # post"
    by blast
  from f l h(3) have "addUserSticker s src now1 now2 i description previewUrl imageUrl
        = (Inr (?stk, u_custom_stickers usr @ [?stk]), s\<lparr>users := pre @ ?f usr # post\<rparr>)"
    by (simp add: addUserSticker_def MAX_CUSTOM_STICKERS_def Let_def)
  with h(1,2) show ?thesis by blast
qed

text \<open>
  Claim C9. addUserSticker fails with \<open>not_found\<close> when no user has the id, and with
  \<open>limit\<close> when the user holds 60 stickers or more; in both cases the store, so the
  stickers already there, is the same. Otherwise the new sticker gets as id the 16 hex
  digits of 8 bytes drawn from the random source, it is appended to the user's
  collection, the call returns it together with the whole new collection, which is what
  the store then holds for the user, and that collection has at most 60 members.
\<close>

theorem addUserSticker_contract:
  "(find (\<lambda>u. u_id u = i) (users s) = None \<longrightarrow>
      addUserSticker s src now1 now2 i description previewUrl imageUrl = (Inl not_found, s))
   \<and> (\<forall>usr. find (\<lambda>u. u_id u = i) (users s) = Some usr \<longrightarrow>
        (60 \<le> length (u_custom_stickers usr) \<longrightarrow>
           addUserSticker s src now1 now2 i description previewUrl imageUrl = (Inl limit, s))
      \<and> (length (u_custom_stickers usr) < 60 \<longrightarrow>
           (\<exists>stk pre post.
              addUserSticker s src now1 now2 i description previewUrl imageUrl
                = (Inr (stk, u_custom_stickers usr @ [stk]),
                   s\<lparr>users := pre @ usr\<lparr>u_custom_stickers := u_custom_stickers usr @ [stk],
                                          u_updated_at := now2\<rparr> # post\<rparr>)
              \<and> users s = pre @ usr # post \<and> list_all (\<lambda>u. u_id u \<noteq> i) pre
              \<and> stk = \<lparr>st_id = toString_hex (randomBytes src 8),
                         st_description = description, st_preview_url = previewUrl,
                         st_image_url = imageUrl, st_created_at = now1\<rparr>
              \<and> length (st_id stk) = 16
              \<and> length (u_custom_stickers usr @ [stk]) \<le> 60
              \<and> getUserStickers
                   (snd (addUserSticker s src now1 now2 i description previewUrl imageUrl)) i
                  = u_custom_stickers usr @ [stk])))"
proof (intro conjI allI impI)
  assume "find (\<lambda>u. u_id u = i) (users s) = None"
  then show "addUserSticker s src now1 now2 i description previewUrl imageUrl = (Inl not_found, s)"
    by (rule addUserSticker_absent)
next
  fix usr
  assume "find (\<lambda>u. u_id u = i) (users s) = Some usr" "60 \<le> length (u_custom_stickers usr)"
  then show "addUserSticker s src now1 now2 i description previewUrl imageUrl = (Inl limit, s)"
    by (rule addUserSticker_full)
next
  fix usr
  assume f: "find (\<lambda>u. u_id u = i) (users s) = Some usr"
    and l: "length (u_custom_stickers usr) < 60"
  from addUserSticker_appends [OF f l, of src now1 now2 description previewUrl imageUrl]
  obtain stk pre post where
    h: "addUserSticker s src now1 now2 i description previewUrl imageUrl
        = (Inr (stk, u_custom_stickers usr @ [stk]),
           s\<lparr>users := pre @ usr\<lparr>u_custom_stickers := u_custom_stickers usr @ [stk],
                                  u_updated_at := now2\<rparr> # post\<rparr>)"
      "users s = pre @ usr # post" "list_all (\<lambda>u. u_id u \<noteq> i) pre"
      "stk = \<lparr>st_id = toString_hex (randomBytes src 8), st_description = description,
                 st_preview_url = previewUrl, st_image_url = imageUrl, st_created_at = now1\<rparr>"
    by blast
  from f have iu: "u_id usr = i"
    by (auto simp: find_Some_iff)
  have len: "length (st_id stk) = 16"
    by (simp add: h(4) toString_hex_length randomBytes_length)
  have "find (\<lambda>u. u_id u = i)
          (pre @ usr\<lparr>u_custom_stickers := u_custom_stickers usr @ [stk], u_updated_at := now2\<rparr> # post)
        = Some (usr\<lparr>u_custom_stickers := u_custom_stickers usr @ [stk], u_updated_at := now2\<rparr>)"
    using h(3) iu by (intro find_after_update) simp_all
  then have gs: "getUserStickers
       (snd (addUserSticker s src now1 now2 i description previewUrl imageUrl)) i
      = u_custom_stickers usr @ [stk]"
    by (simp add: h(1) getUserStickers_def)
  from l have "length (u_custom_stickers usr @ [stk]) \<le> 60" by simp
  with h len gs show "\<exists>stk pre post.
              addUserSticker s src now1 now2 i description previewUrl imageUrl
                = (Inr (stk, u_custom_stickers usr @ [stk]),
                   s\<lparr>users := pre @ usr\<lparr>u_custom_stickers := u_custom_stickers usr @ [stk],
                                          u_updated_at := now2\<rparr> # post\<rparr>)
              \<and> users s = pre @ usr # post \<and> list_all (\<lambda>u. u_id u \<noteq> i) pre
              \<and> stk = \<lparr>st_id = toString_hex (randomBytes src 8),
                         st_description = description, st_preview_url = previewUrl,
                         st_image_url = imageUrl, st_created_at = now1\<rparr>
              \<and> length (st_id stk) = 16
              \<and> length (u_custom_stickers usr @ [stk]) \<le> 60
              \<and> getUserStickers
                   (snd (addUserSticker s src now1 now2 i description previewUrl imageUrl)) i
                  = u_custom_stickers usr @ [stk]"
    by blast
qed

theorem addUserSticker_contract_witness:
  "addUserSticker chat_store (\<lambda>k. of_nat k * 17) 10 11 7 ''d'' ''p'' ''i'' = (Inl not_found, chat_store)
   \<and> length (getUserStickers full_sticker_store 1) = 60
   \<and> addUserSticker full_sticker_store (\<lambda>k. of_nat k * 17) 10 11 1 ''d'' ''p'' ''i''
       = (Inl limit, full_sticker_store)
   \<and> fst (addUserSticker chat_store (\<lambda>k. of_nat k * 17) 10 11 2 ''d'' ''p'' ''i'')
       = Inr (\<lparr>st_id = ''0011223344556677'', st_description = ''d'', st_preview_url = ''p'',
                st_image_url = ''i'', st_created_at = 10\<rparr>,
              [\<lparr>st_id = ''0011223344556677'', st_description = ''d'', st_preview_url = ''p'',
                st_image_url = ''i'', st_created_at = 10\<rparr>])"
proof -
  have a: "find (\<lambda>u. u_id u = 7) (users chat_store) = None"
    by (simp add: chat_store_def example_user_def)
  have b: "find (\<lambda>u. u_id u = 1) (users full_sticker_store) = Some (hd (users full_sticker_store))"
    by (simp add: full_sticker_store_def example_user_def)
  have b': "60 \<le> length (u_custom_stickers (hd (users full_sticker_store)))"
    by (simp add: full_sticker_store_def)
  have b'': "length (getUserStickers full_sticker_store 1) = 60"
    by (simp add: getUserStickers_def full_sticker_store_def example_user_def)
  have c: "fst (addUserSticker chat_store (\<lambda>k. of_nat k * 17) 10 11 2 ''d'' ''p'' ''i'')
       = Inr (\<lparr>st_id = ''0011223344556677'', st_description = ''d'', st_preview_url = ''p'',
                st_image_url = ''i'', st_created_at = 10\<rparr>,
              [\<lparr>st_id = ''0011223344556677'', st_description = ''d'', st_preview_url = ''p'',
                st_image_url = ''i'', st_created_at = 10\<rparr>])"
    by code_simp
  from a b b' b'' c
    addUserSticker_contract [of 7 chat_store "\<lambda>k. of_nat k * 17" 10 11 "''d''" "''p''" "''i''"]
    addUserSticker_contract [of 1 full_sticker_store "\<lambda>k. of_nat k * 17" 10 11 "''d''" "''p''" "''i''"]
  show ?thesis by simp
qed

subsection \<open>File codes\<close>

lemma sample_code_length: "length (sample_code ints k) = 8"
  by (simp add: sample_code_def)

lemma sample_code_alphabet: "set (sample_code ints k) \<subseteq> set FILE_CODE_ALPHABET"
proof -
  have "FILE_CODE_ALPHABET ! randomInt ints j 0 (length FILE_CODE_ALPHABET) \<in> set FILE_CODE_ALPHABET"
    for j
    by (rule nth_mem) (simp add: randomInt_def FILE_CODE_ALPHABET_def)
  then show ?thesis by (auto simp: sample_code_def)
qed

lemma alphabet_plain: "list_all (\<lambda>c. upper_char c = c \<and> \<not> is_space c) FILE_CODE_ALPHABET"
  by code_simp

lemma trim_no_space: "list_all (\<lambda>c. \<not> is_space c) cs \<Longrightarrow> trim cs = cs"
proof -
  assume a: "list_all (\<lambda>c. \<not> is_space c) cs"
  have d: "dropWhile is_space xs = xs" if "list_all (\<lambda>c. \<not> is_space c) xs" for xs
    using that by (cases xs) simp_all
  from a have "list_all (\<lambda>c. \<not> is_space c) (rev cs)" by (simp add: list_all_iff)
  with a show ?thesis by (simp add: trim_def d)
qed

lemma getFileByCode_sample:
  "getFileByCode s (sample_code ints k) = find (\<lambda>f. f_code f = sample_code ints k) (files s)"
proof -
  let ?c = "sample_code ints k"
  from alphabet_plain sample_code_alphabet [of ints k]
  have p: "list_all (\<lambda>c. upper_char c = c \<and> \<not> is_space c) ?c"
    by (auto simp: list_all_iff)
  then have "trim ?c = ?c" by (intro trim_no_space) (simp add: list_all_iff)
  moreover from p have "toUpperCase ?c = ?c"
    by (simp add: toUpperCase_def list_all_iff map_idI)
  moreover have "?c \<noteq> []" using sample_code_length [of ints k] by auto
  ultimately show ?thesis by (simp add: getFileByCode_def)
qed

lemma fallback_code_length: "length (fallback_code bytes) = 8"
  by (simp add: fallback_code_def toUpperCase_def toString_hex_length randomBytes_length)

lemma generateFileCode_loop_find:
  "attempts < 5 \<Longrightarrow>
     generateFileCode_loop s ints bytes attempts =
       (case find (\<lambda>c. getFileByCode s c = None) (map (\<lambda>a. sample_code ints (8 * a)) [attempts..<5]) of
          Some c \<Rightarrow> c | None \<Rightarrow> fallback_code bytes)"
proof (induction s ints bytes attempts rule: generateFileCode_loop.induct)
  case (1 s ints bytes attempts)
  from "1.prems" have u: "[attempts..<5] = attempts # [attempts + 1..<5]"
    by (simp add: upt_rec)
  show ?case
  proof (cases "getFileByCode s (sample_code ints (8 * attempts)) = None")
    case True
    then show ?thesis
      by (subst generateFileCode_loop.simps) (simp add: u Let_def del: upt_Suc generateFileCode_loop.simps)
  next
    case False
    show ?thesis
    proof (cases "attempts + 1 < 5")
      case True
      have "generateFileCode_loop s ints bytes attempts
          = generateFileCode_loop s ints bytes (attempts + 1)"
        using False True by (subst generateFileCode_loop.simps) (auto simp: Let_def simp del: generateFileCode_loop.simps)
      also have "\<dots> = (case find (\<lambda>c. getFileByCode s c = None)
              (map (\<lambda>a. sample_code ints (8 * a)) [attempts + 1..<5]) of
          Some c \<Rightarrow> c | None \<Rightarrow> fallback_code bytes)"
        using "1.IH" [OF refl False True True] .
      also have "\<dots> = (case find (\<lambda>c. getFileByCode s c = None)
              (map (\<lambda>a. sample_code ints (8 * a)) [attempts..<5]) of
          Some c \<Rightarrow> c | None \<Rightarrow> fallback_code bytes)"
        using False by (simp only: u list.map find.simps if_False)
      finally show ?thesis .
    next
      case False
      with "1.prems" have "attempts = 4" by simp
      with \<open>getFileByCode s (sample_code ints (8 * attempts)) \<noteq> None\<close> show ?thesis
        by (subst generateFileCode_loop.simps) (auto simp: Let_def simp del: upt_Suc generateFileCode_loop.simps)
    qed
  qed
qed

text \<open>
  Claim C8. generateFileCode is a total function of the store and of what the random
  source answers, and its result has 8 characters. It draws at most five codes of eight
  symbols of the 32-symbol alphabet each and returns the first one that no stored file
  has as its code; when all five are taken it returns the first 8 characters of the
  upper-cased hex string of 6 random bytes, without a further check.
\<close>

theorem generateFileCode_terminates_with_code:
  "length (generateFileCode s ints bytes) = 8
   \<and> generateFileCode s ints bytes =
       (case find (\<lambda>c. getFileByCode s c = None)
               (map (\<lambda>a. sample_code ints (8 * a)) [0..<5]) of
          Some c \<Rightarrow> c | None \<Rightarrow> fallback_code bytes)
   \<and> list_all (\<lambda>c. length c = 8 \<and> set c \<subseteq> set FILE_CODE_ALPHABET
                   \<and> getFileByCode s c = find (\<lambda>f. f_code f = c) (files s))
        (map (\<lambda>a. sample_code ints (8 * a)) [0..<5])
   \<and> length FILE_CODE_ALPHABET = 32 \<and> distinct FILE_CODE_ALPHABET
   \<and> fallback_code bytes = take 8 (toUpperCase (toString_hex (randomBytes bytes 6)))
   \<and> length (fallback_code bytes) = 8"
proof -
  let ?cands = "map (\<lambda>a. sample_code ints (8 * a)) [0..<5]"
  have eq: "generateFileCode s ints bytes =
       (case find (\<lambda>c. getFileByCode s c = None) ?cands of
          Some c \<Rightarrow> c | None \<Rightarrow> fallback_code bytes)"
    unfolding generateFileCode_def by (rule generateFileCode_loop_find) simp
  have cands: "list_all (\<lambda>c. length c = 8 \<and> set c \<subseteq> set FILE_CODE_ALPHABET
                   \<and> getFileByCode s c = find (\<lambda>f. f_code f = c) (files s)) ?cands"
    unfolding list_all_iff
    using sample_code_length sample_code_alphabet getFileByCode_sample by auto
  have len: "length (generateFileCode s ints bytes) = 8"
  proof (cases "find (\<lambda>c. getFileByCode s c = None) ?cands")
    case None
    with eq show ?thesis by (simp add: fallback_code_length)
  next
    case (Some c)
    then have "c \<in> set ?cands" by (auto simp: find_Some_iff)
    with cands have "length c = 8" unfolding list_all_iff by blast
    with Some eq show ?thesis by simp
  qed
  have alph: "length FILE_CODE_ALPHABET = 32 \<and> distinct FILE_CODE_ALPHABET"
    by (simp add: FILE_CODE_ALPHABET_def)
  from len eq cands alph show ?thesis
    by (simp add: fallback_code_length) (simp add: fallback_code_def)
qed

theorem generateFileCode_terminates_with_code_witness:
  "generateFileCode chat_store (\<lambda>_. 0) (\<lambda>_. 0xAB) = ''ABABABAB''
   \<and> generateFileCode chat_store (\<lambda>k. if k < 16 then 0 else k) (\<lambda>_. 0xAB) = ''STUVWXYZ''"
proof -
  have a: "map (\<lambda>a. sample_code (\<lambda>_. 0) (8 * a)) [0..<5]
      = [''AAAAAAAA'', ''AAAAAAAA'', ''AAAAAAAA'', ''AAAAAAAA'', ''AAAAAAAA'']"
    by code_simp
  have b: "getFileByCode chat_store ''AAAAAAAA'' \<noteq> None"
    by code_simp
  have c: "fallback_code (\<lambda>_. 0xAB) = ''ABABABAB''"
    by code_simp
  have d: "map (\<lambda>a. sample_code (\<lambda>k. if k < 16 then 0 else k) (8 * a)) [0..<5]
      = [''AAAAAAAA'', ''AAAAAAAA'', ''STUVWXYZ'', ''23456789'', ''ABCDEFGH'']"
    by code_simp
  have e: "getFileByCode chat_store ''STUVWXYZ'' = None"
    by code_simp
  have "generateFileCode chat_store (\<lambda>_. 0) (\<lambda>_. 0xAB) =
       (case find (\<lambda>c. getFileByCode chat_store c = None)
               (map (\<lambda>a. sample_code (\<lambda>_. 0) (8 * a)) [0..<5]) of
          Some c \<Rightarrow> c | None \<Rightarrow> fallback_code (\<lambda>_. 0xAB))"
    using generateFileCode_terminates_with_code [of chat_store "\<lambda>_. 0" "\<lambda>_. 0xAB"]
    by blast
  then have one: "generateFileCode chat_store (\<lambda>_. 0) (\<lambda>_. 0xAB) = ''ABABABAB''"
    unfolding a using b c by simp
  have "generateFileCode chat_store (\<lambda>k. if k < 16 then 0 else k) (\<lambda>_. 0xAB) =
       (case find (\<lambda>c. getFileByCode chat_store c = None)
               (map (\<lambda>a. sample_code (\<lambda>k. if k < 16 then 0 else k) (8 * a)) [0..<5]) of
          Some c \<Rightarrow> c | None \<Rightarrow> fallback_code (\<lambda>_. 0xAB))"
    using generateFileCode_terminates_with_code
            [of chat_store "\<lambda>k. if k < 16 then 0 else k" "\<lambda>_. 0xAB"]
    by blast
  then have two: "generateFileCode chat_store (\<lambda>k. if k < 16 then 0 else k) (\<lambda>_. 0xAB)
      = ''STUVWXYZ''"
    unfolding d using b e by simp
  from one two show ?thesis by simp
qed

subsection \<open>Mentions\<close>

declare all_matches.simps [simp del] extractMentions_loop.simps [simp del]

lemma update_fresh: "map_of mp k = None \<Longrightarrow> AList.update k v mp = mp @ [(k, v)]"
  by (induction mp) (auto split: if_splits)

lemma extractMentions_loop_fold:
  "extractMentions_loop s senderId str ids mp
     = fold (mention_step s senderId) (all_matches str) (ids, mp)"
proof (induction s senderId str ids mp rule: extractMentions_loop.induct)
  case (1 s senderId str ids mp)
  show ?case
  proof (cases "regex_exec str")
    case None
    then show ?thesis
      by (subst extractMentions_loop.simps, subst all_matches.simps) simp
  next
    case (Some p)
    obtain name rest where p: "p = (name, rest)" by (cases p)
    note m = Some [unfolded p]
    have am: "all_matches str = name # all_matches rest"
      by (subst all_matches.simps) (simp add: m)
    show ?thesis
    proof (cases "getUserByDisplayName s name")
      case None
      have "extractMentions_loop s senderId str ids mp = extractMentions_loop s senderId rest ids mp"
        by (subst extractMentions_loop.simps) (simp add: m None)
      also have "\<dots> = fold (mention_step s senderId) (all_matches rest) (ids, mp)"
        using "1.IH"(1) [OF m refl None] .
      also have "\<dots> = fold (mention_step s senderId) (all_matches str) (ids, mp)"
        by (simp add: am mention_step_def resolve_mention_def None)
      finally show ?thesis .
    next
      case (Some usr)
      show ?thesis
      proof (cases "u_id usr \<noteq> senderId \<and> map_of mp name = None")
        case True
        have "extractMentions_loop s senderId str ids mp
            = extractMentions_loop s senderId rest (ids @ [u_id usr]) (AList.update name (u_id usr) mp)"
          using True by (subst extractMentions_loop.simps) (simp add: m Some)
        also have "\<dots> = fold (mention_step s senderId) (all_matches rest)
             (ids @ [u_id usr], AList.update name (u_id usr) mp)"
          using "1.IH"(2) [OF m refl Some True] .
        also have "\<dots> = fold (mention_step s senderId) (all_matches str) (ids, mp)"
          using True by (simp add: am mention_step_def resolve_mention_def Some update_fresh)
        finally show ?thesis .
      next
        case False
        have "extractMentions_loop s senderId str ids mp = extractMentions_loop s senderId rest ids mp"
          using False by (subst extractMentions_loop.simps) (auto simp: m Some)
        also have "\<dots> = fold (mention_step s senderId) (all_matches rest) (ids, mp)"
          using "1.IH"(3) [OF m refl Some False] .
        also have "\<dots> = fold (mention_step s senderId) (all_matches str) (ids, mp)"
          using False by (auto simp: am mention_step_def resolve_mention_def Some)
        finally show ?thesis .
      qed
    qed
  qed
qed

lemma resolve_mention_fst: "resolve_mention s senderId n = Some (k, i) \<Longrightarrow> k = n"
  by (auto simp: resolve_mention_def split: option.splits if_splits)

lemma map_filter_skip:
  "f n = None \<Longrightarrow> List.map_filter f (filter (\<lambda>x. P x \<and> x \<noteq> n) ys) = List.map_filter f (filter P ys)"
  by (induction ys) (auto split: option.splits)

lemma fold_mention_step:
  "fold (mention_step s senderId) toks (ids, mp) =
     (ids @ map snd (List.map_filter (resolve_mention s senderId)
                       (filter (\<lambda>n. n \<notin> fst ` set mp) (first_occurrences toks))),
      mp @ List.map_filter (resolve_mention s senderId)
             (filter (\<lambda>n. n \<notin> fst ` set mp) (first_occurrences toks)))"
proof (induction toks arbitrary: ids mp)
  case Nil
  show ?case by simp
next
  case (Cons n toks)
  let ?r = "resolve_mention s senderId"
  let ?fo = "first_occurrences toks"
  have keys: "map_of mp n = None \<longleftrightarrow> n \<notin> fst ` set mp"
    by (simp add: map_of_eq_None_iff)
  show ?case
  proof (cases "n \<in> fst ` set mp")
    case True
    then have st: "mention_step s senderId n (ids, mp) = (ids, mp)"
      by (auto simp: mention_step_def keys split: option.splits)
    have "filter (\<lambda>x. x \<notin> fst ` set mp) (filter (\<lambda>y. y \<noteq> n) ?fo)
        = filter (\<lambda>x. x \<notin> fst ` set mp) ?fo"
      using True by (auto intro!: filter_cong)
    with True st Cons.IH [of ids mp] show ?thesis by simp
  next
    case False
    show ?thesis
    proof (cases "?r n")
      case None
      then have st: "mention_step s senderId n (ids, mp) = (ids, mp)"
        by (simp add: mention_step_def)
      have "List.map_filter ?r (filter (\<lambda>x. x \<notin> fst ` set mp) (n # filter (\<lambda>y. y \<noteq> n) ?fo))
          = List.map_filter ?r (filter (\<lambda>x. x \<notin> fst ` set mp \<and> x \<noteq> n) ?fo)"
        using False None by (simp add: conj_commute)
      also have "\<dots> = List.map_filter ?r (filter (\<lambda>x. x \<notin> fst ` set mp) ?fo)"
        using None by (rule map_filter_skip)
      finally show ?thesis using st Cons.IH [of ids mp] by simp
    next
      case (Some p)
      obtain k i where p: "p = (k, i)" by (cases p)
      with Some resolve_mention_fst have r: "?r n = Some (n, i)" by blast
      with False have st: "mention_step s senderId n (ids, mp) = (ids @ [i], mp @ [(n, i)])"
        by (simp add: mention_step_def keys)
      have a: "filter (\<lambda>x. x \<notin> fst ` set (mp @ [(n, i)])) ?fo
          = filter (\<lambda>x. x \<notin> fst ` set mp) (filter (\<lambda>y. y \<noteq> n) ?fo)"
        by (auto intro!: filter_cong)
      have "List.map_filter ?r (filter (\<lambda>x. x \<notin> fst ` set mp) (n # filter (\<lambda>y. y \<noteq> n) ?fo))
          = (n, i) # List.map_filter ?r (filter (\<lambda>x. x \<notin> fst ` set (mp @ [(n, i)])) ?fo)"
        using False r by (simp add: a)
      with st Cons.IH [of "ids @ [i]" "mp @ [(n, i)]"] show ?thesis by simp
    qed
  qed
qed

lemma extractMentions_spec:
  "extractMentions s text senderId
     = (map snd (mentions_spec s text senderId), mentions_spec s text senderId)"
  unfolding extractMentions_def extractMentions_loop_fold fold_mention_step mentions_spec_def
  by simp

lemma first_occurrences_set: "set (first_occurrences xs) = set xs"
  by (induction xs) auto

lemma first_occurrences_distinct: "distinct (first_occurrences xs)"
  by (induction xs) (auto simp: first_occurrences_set)

lemma map_filter_resolve_fst:
  "map fst (List.map_filter (resolve_mention s senderId) xs)
     = filter (\<lambda>n. resolve_mention s senderId n \<noteq> None) xs"
  by (induction xs) (auto simp: dest: resolve_mention_fst split: option.splits)

lemma mentions_spec_distinct: "distinct (map fst (mentions_spec s text senderId))"
  by (simp add: mentions_spec_def map_filter_resolve_fst first_occurrences_distinct)

lemma mentions_spec_entries:
  "list_all (\<lambda>(name, i). i \<noteq> senderId \<and> map_option u_id (getUserByDisplayName s name) = Some i)
     (mentions_spec s text senderId)"
proof -
  have "list_all (\<lambda>(name, i). i \<noteq> senderId \<and> map_option u_id (getUserByDisplayName s name) = Some i)
     (List.map_filter (resolve_mention s senderId) xs)" for xs
    by (induction xs)
      (auto simp: resolve_mention_def split: option.splits if_splits)
  then show ?thesis by (simp add: mentions_spec_def)
qed

text \<open>
  Claim C6, as amended. extractMentions scans the tokens of the text left to right and
  looks each one up by display name, both sides trimmed and in lower case. Its result is
  the specification \<open>mentions_spec\<close>: each distinct token as written counts once, at its
  first position; a token is listed when some user bears that name and is not the
  sender; the ids come in that order. The sender's id is never in the result and no
  token is entered twice. The same user can be listed more than once, under tokens that
  differ as written.
\<close>

theorem extractMentions_once_per_name:
  "extractMentions s text senderId
     = (map snd (mentions_spec s text senderId), mentions_spec s text senderId)
   \<and> senderId \<notin> set (fst (extractMentions s text senderId))
   \<and> distinct (map fst (snd (extractMentions s text senderId)))
   \<and> list_all (\<lambda>(name, i). i \<noteq> senderId
                  \<and> map_option u_id (getUserByDisplayName s name) = Some i)
        (snd (extractMentions s text senderId))"
proof -
  have "senderId \<notin> set (map snd (mentions_spec s text senderId))"
    using mentions_spec_entries [of senderId s "text"] by (auto simp: list_all_iff)
  then have "senderId \<notin> set (fst (extractMentions s text senderId))"
    by (simp add: extractMentions_spec)
  moreover have "distinct (map fst (snd (extractMentions s text senderId)))"
    by (simp add: extractMentions_spec mentions_spec_distinct)
  moreover have "list_all (\<lambda>(name, i). i \<noteq> senderId
                  \<and> map_option u_id (getUserByDisplayName s name) = Some i)
        (snd (extractMentions s text senderId))"
    unfolding extractMentions_spec snd_conv by (rule mentions_spec_entries)
  ultimately show ?thesis
    using extractMentions_spec [of s "text" senderId] by blast
qed

theorem extractMentions_once_per_name_witness:
  "extractMentions chat_store ''hi @Bob and @Bob, @Ann @Cy @Bob @x@Cy'' 1
     = ([2, 3], [(''Bob'', 2), (''Cy'', 3)])
   \<and> all_matches ''hi @Bob and @Bob, @Ann @Cy @Bob @x@Cy''
       = [''Bob'', ''Bob,'', ''Ann'', ''Cy'', ''Bob'', ''Cy'']"
proof -
  have a: "all_matches ''hi @Bob and @Bob, @Ann @Cy @Bob @x@Cy''
       = [''Bob'', ''Bob,'', ''Ann'', ''Cy'', ''Bob'', ''Cy'']"
    by code_simp
  have b: "mentions_spec chat_store ''hi @Bob and @Bob, @Ann @Cy @Bob @x@Cy'' 1
       = [(''Bob'', 2), (''Cy'', 3)]"
    by code_simp
  from a b extractMentions_once_per_name [of chat_store "''hi @Bob and @Bob, @Ann @Cy @Bob @x@Cy''" 1]
  show ?thesis by simp
qed

text \<open>
  The claim as first stated has every matched user only once. The loop asks whether the
  Map holds the token as written, so two spellings of one display name enter the same
  user twice.
\<close>

theorem extractMentions_same_user_twice_counterexample:
  "extractMentions chat_store ''@Bob @bob'' 1 = ([2, 2], [(''Bob'', 2), (''bob'', 2)])
   \<and> \<not> distinct (fst (extractMentions chat_store ''@Bob @bob'' 1))"
proof -
  have "extractMentions chat_store ''@Bob @bob'' 1 = ([2, 2], [(''Bob'', 2), (''bob'', 2)])"
    by code_simp
  then show ?thesis by simp
qed

subsection \<open>Presence\<close>












subsection \<open>Incoming chat messages\<close>






lemma users_never_removed:
  "map u_id (users (snd (saveMessage s userId content createdAt replyToId))) = map u_id (users s)"
  "map u_id (users (snd (deleteMessage s mid req))) = map u_id (users s)"
  "map u_id (users (snd (addUserSticker s src now1 now2 i description previewUrl imageUrl)))
     = map u_id (users s)"
  by (simp_all add: saveMessage_def deleteMessage_def addUserSticker_def Let_def update_first_map_id
      split: option.splits)



end
